theory Spec2Isabelle
  imports Main
begin

section \<open>Permission store (models.py, auth.py)\<close>

text \<open>
  A row of the table \<^verbatim>\<open>editor_permissions\<close> (class \<^verbatim>\<open>EditorPermission\<close>).
  The column \<^verbatim>\<open>section_id\<close> is nullable; \<^verbatim>\<open>None\<close> is the absent section.
\<close>

record EditorPermission =
  perm_page_slug :: string
  perm_section_id :: "string option"
  perm_can_edit :: bool

text \<open>Python's \<^verbatim>\<open>s.startswith(p)\<close>, \<^verbatim>\<open>s.endswith(p)\<close> and the slice \<^verbatim>\<open>s[:-2]\<close>.\<close>

definition startswith :: "string \<Rightarrow> string \<Rightarrow> bool" where
  "startswith s p = (take (length p) s = p)"

definition endswith :: "string \<Rightarrow> string \<Rightarrow> bool" where
  "endswith s p = (length p \<le> length s \<and> drop (length s - length p) s = p)"

definition drop_last2 :: "string \<Rightarrow> string" where
  "drop_last2 s = take (length s - 2) s"

text \<open>
  \<^verbatim>\<open>User.has_permission(self, page_slug, section_id=None)\<close>, models.py lines 27-40.
  The first argument is \<^verbatim>\<open>self.permissions\<close>, the user's grants in stored order; the
  \<^verbatim>\<open>for\<close> loop is the recursion over that list, and each \<^verbatim>\<open>return\<close> ends it.
\<close>

fun has_permission :: "EditorPermission list \<Rightarrow> string \<Rightarrow> string option \<Rightarrow> bool" where
  "has_permission [] page_slug section_id = False"
| "has_permission (perm # perms) page_slug section_id =
     (if perm_page_slug perm = ''*'' then True
      else if endswith (perm_page_slug perm) ''/*''
              \<and> startswith page_slug (drop_last2 (perm_page_slug perm))
              \<and> (section_id = None \<or> perm_section_id perm = None
                   \<or> perm_section_id perm = section_id)
           then perm_can_edit perm
      else if perm_page_slug perm = page_slug
              \<and> (section_id = None \<or> perm_section_id perm = None
                   \<or> perm_section_id perm = section_id)
           then perm_can_edit perm
      else has_permission perms page_slug section_id)"

text \<open>
  Flask-Login's \<^verbatim>\<open>current_user\<close>, as far as the code reads it: the flag
  \<^verbatim>\<open>is_authenticated\<close> and, for a loaded user, the grants \<^verbatim>\<open>permissions\<close>.
\<close>

record current_user =
  is_authenticated :: bool
  permissions :: "EditorPermission list"

text \<open>\<^verbatim>\<open>can_edit(page_slug, section_id=None)\<close>, auth.py lines 49-53.\<close>

definition can_edit :: "current_user \<Rightarrow> string \<Rightarrow> string option \<Rightarrow> bool" where
  "can_edit cu page_slug section_id =
     (if \<not> is_authenticated cu then False
      else has_permission (permissions cu) page_slug section_id)"

text \<open>\<^verbatim>\<open>editor_mode_active()\<close>, auth.py lines 55-60; the argument is \<^verbatim>\<open>request.args.get('edit')\<close>.\<close>

definition editor_mode_active :: "current_user \<Rightarrow> string option \<Rightarrow> bool" where
  "editor_mode_active cu edit_arg = (is_authenticated cu \<and> edit_arg = Some ''1'')"

section \<open>The json module, as the content store uses it\<close>

text \<open>
  \<^verbatim>\<open>models.py\<close> stores each content document as \<^verbatim>\<open>json.dumps(content)\<close> and reads it with
  \<^verbatim>\<open>json.loads\<close>, both of Python's standard library and with default arguments. The
  definitions below follow that module for the values built from \<^verbatim>\<open>None\<close>, booleans,
  integers, strings, lists and dictionaries. The type \<open>json\<close> holds what \<^verbatim>\<open>json.loads\<close>
  returns, where every dictionary key is a string. A dictionary is the list of
  its items in insertion order. A character of a string stands for the code point of the
  same number, so strings range over the code points 0 to 255. Floats have no counterpart.
\<close>

datatype json =
    JNull
  | JBool bool
  | JInt int
  | JStr string
  | JList "json list"
  | JDict "(string \<times> json) list"

text \<open>
  The exceptions and refusals that the modelled code can end in. \<open>NotModelled\<close> marks a
  text that \<^verbatim>\<open>json.loads\<close> accepts with a value outside the type \<open>json\<close> (a float, a
  character above code point 255); \<open>OutOfFuel\<close> is the exhausted recursion bound of the
  parser, which \<open>json_loads\<close> never returns (lemma \<open>json_loads_fuel\<close>).
  \<open>Unauthorized\<close> is the answer of \<^verbatim>\<open>@login_required\<close> to an unauthenticated caller.
\<close>

datatype error =
    JSONDecodeError
  | TypeError
  | AttributeError
  | Unauthorized
  | NotModelled
  | OutOfFuel

text \<open>
  \<^verbatim>\<open>json.dumps\<close>: separators \<^verbatim>\<open>", "\<close> and \<^verbatim>\<open>": "\<close>, \<^verbatim>\<open>ensure_ascii=True\<close>, so every
  character outside the printable ASCII range is written as an escape.
\<close>

definition hex_digit :: "nat \<Rightarrow> char" where
  "hex_digit n = ''0123456789abcdef'' ! n"

definition encode_char :: "char \<Rightarrow> string" where
  "encode_char c =
     (if c = CHR 0x22 then [CHR 0x5C, CHR 0x22]
      else if c = CHR 0x5C then [CHR 0x5C, CHR 0x5C]
      else if c = CHR 0x0A then [CHR 0x5C, CHR ''n'']
      else if c = CHR 0x0D then [CHR 0x5C, CHR ''r'']
      else if c = CHR 0x09 then [CHR 0x5C, CHR ''t'']
      else if c = CHR 0x08 then [CHR 0x5C, CHR ''b'']
      else if c = CHR 0x0C then [CHR 0x5C, CHR ''f'']
      else if 0x20 \<le> (of_char c :: nat) \<and> (of_char c :: nat) \<le> 0x7E then [c]
      else [CHR 0x5C, CHR ''u'', CHR ''0'', CHR ''0'',
            hex_digit (of_char c div 16), hex_digit (of_char c mod 16)])"

definition encode_basestring_ascii :: "string \<Rightarrow> string" where
  "encode_basestring_ascii s = CHR 0x22 # concat (map encode_char s) @ [CHR 0x22]"

fun digits :: "nat \<Rightarrow> string" where
  "digits n = (if n < 10 then [char_of (48 + n)] else digits (n div 10) @ [char_of (48 + n mod 10)])"

declare digits.simps [simp del]

definition int_repr :: "int \<Rightarrow> string" where
  "int_repr i = (if i < 0 then CHR ''-'' # digits (nat (- i)) else digits (nat i))"

fun json_dumps :: "json \<Rightarrow> string"
and dumps_list :: "json list \<Rightarrow> string"
and dumps_items :: "(string \<times> json) list \<Rightarrow> string" where
  "json_dumps JNull = ''null''"
| "json_dumps (JBool b) = (if b then ''true'' else ''false'')"
| "json_dumps (JInt i) = int_repr i"
| "json_dumps (JStr s) = encode_basestring_ascii s"
| "json_dumps (JList xs) = ''['' @ dumps_list xs @ '']''"
| "json_dumps (JDict kvs) = ''{'' @ dumps_items kvs @ ''}''"
| "dumps_list [] = []"
| "dumps_list (x # xs) = (if xs = [] then json_dumps x else json_dumps x @ '', '' @ dumps_list xs)"
| "dumps_items [] = []"
| "dumps_items ((k, v) # kvs) =
     (if kvs = [] then encode_basestring_ascii k @ '': '' @ json_dumps v
      else encode_basestring_ascii k @ '': '' @ json_dumps v @ '', '' @ dumps_items kvs)"

text \<open>
  The Python values that a caller can hand to \<^verbatim>\<open>json.dumps\<close>: as the values of type
  \<open>json\<close>, except that a dictionary key may also be an integer, a boolean or \<^verbatim>\<open>None\<close>.
  \<^verbatim>\<open>json.dumps\<close> writes such a key as a string: the key \<^verbatim>\<open>1\<close> as the string \<^verbatim>\<open>1\<close>,
  \<^verbatim>\<open>True\<close> as \<^verbatim>\<open>true\<close>, \<^verbatim>\<open>None\<close> as \<^verbatim>\<open>null\<close>. \<open>py_dumps\<close> is \<^verbatim>\<open>json.dumps\<close> on
  these values; \<open>json_dumps\<close> above is the same function on the values that have string
  keys only (lemma \<open>py_dumps_of_json\<close>), which \<open>of_json\<close> embeds.
\<close>

datatype pykey = KStr string | KInt int | KBool bool | KNone

datatype pyval =
    PNone
  | PBool bool
  | PInt int
  | PStr string
  | PList "pyval list"
  | PDict "(pykey \<times> pyval) list"

fun key_text :: "pykey \<Rightarrow> string" where
  "key_text (KStr s) = s"
| "key_text (KInt i) = int_repr i"
| "key_text (KBool b) = (if b then ''true'' else ''false'')"
| "key_text KNone = ''null''"

fun py_dumps :: "pyval \<Rightarrow> string"
and py_dumps_list :: "pyval list \<Rightarrow> string"
and py_dumps_items :: "(pykey \<times> pyval) list \<Rightarrow> string" where
  "py_dumps PNone = ''null''"
| "py_dumps (PBool b) = (if b then ''true'' else ''false'')"
| "py_dumps (PInt i) = int_repr i"
| "py_dumps (PStr s) = encode_basestring_ascii s"
| "py_dumps (PList xs) = ''['' @ py_dumps_list xs @ '']''"
| "py_dumps (PDict kvs) = ''{'' @ py_dumps_items kvs @ ''}''"
| "py_dumps_list [] = []"
| "py_dumps_list (x # xs) =
     (if xs = [] then py_dumps x else py_dumps x @ '', '' @ py_dumps_list xs)"
| "py_dumps_items [] = []"
| "py_dumps_items ((k, v) # kvs) =
     (if kvs = [] then encode_basestring_ascii (key_text k) @ '': '' @ py_dumps v
      else encode_basestring_ascii (key_text k) @ '': '' @ py_dumps v @ '', ''
           @ py_dumps_items kvs)"

fun of_json :: "json \<Rightarrow> pyval"
and of_json_list :: "json list \<Rightarrow> pyval list"
and of_json_items :: "(string \<times> json) list \<Rightarrow> (pykey \<times> pyval) list" where
  "of_json JNull = PNone"
| "of_json (JBool b) = PBool b"
| "of_json (JInt i) = PInt i"
| "of_json (JStr s) = PStr s"
| "of_json (JList xs) = PList (of_json_list xs)"
| "of_json (JDict kvs) = PDict (of_json_items kvs)"
| "of_json_list [] = []"
| "of_json_list (x # xs) = of_json x # of_json_list xs"
| "of_json_items [] = []"
| "of_json_items ((k, v) # kvs) = (KStr k, of_json v) # of_json_items kvs"

text \<open>
  \<^verbatim>\<open>json.loads\<close>: the scanner of \<^verbatim>\<open>json.decoder\<close> and \<^verbatim>\<open>json.scanner\<close>. The functions
  return the value read and the rest of the text.
\<close>

definition is_ws :: "char \<Rightarrow> bool" where
  "is_ws c = (c = CHR '' '' \<or> c = CHR 0x09 \<or> c = CHR 0x0A \<or> c = CHR 0x0D)"

definition skip_ws :: "string \<Rightarrow> string" where
  "skip_ws s = dropWhile is_ws s"

definition is_digit :: "char \<Rightarrow> bool" where
  "is_digit c = (48 \<le> (of_char c :: nat) \<and> (of_char c :: nat) \<le> 57)"

definition hex_val :: "char \<Rightarrow> nat option" where
  "hex_val c =
     (let n = (of_char c :: nat) in
      if 48 \<le> n \<and> n \<le> 57 then Some (n - 48)
      else if 97 \<le> n \<and> n \<le> 102 then Some (n - 87)
      else if 65 \<le> n \<and> n \<le> 70 then Some (n - 55)
      else None)"

definition decode_uXXXX :: "char \<Rightarrow> char \<Rightarrow> char \<Rightarrow> char \<Rightarrow> nat option" where
  "decode_uXXXX h1 h2 h3 h4 =
     (case (hex_val h1, hex_val h2, hex_val h3, hex_val h4) of
        (Some a, Some b, Some c, Some d) \<Rightarrow> Some (((a * 16 + b) * 16 + c) * 16 + d)
      | _ \<Rightarrow> None)"

definition backslash :: "char \<Rightarrow> char option" where
  "backslash e =
     (if e = CHR 0x22 then Some (CHR 0x22)
      else if e = CHR 0x5C then Some (CHR 0x5C)
      else if e = CHR ''/'' then Some (CHR ''/'')
      else if e = CHR ''b'' then Some (CHR 0x08)
      else if e = CHR ''f'' then Some (CHR 0x0C)
      else if e = CHR ''n'' then Some (CHR 0x0A)
      else if e = CHR ''r'' then Some (CHR 0x0D)
      else if e = CHR ''t'' then Some (CHR 0x09)
      else None)"

definition cons_chunk :: "char \<Rightarrow> error + (string \<times> string) \<Rightarrow> error + (string \<times> string)" where
  "cons_chunk c r = (case r of Inl e \<Rightarrow> Inl e | Inr (str, rest) \<Rightarrow> Inr (c # str, rest))"

fun scanstring :: "string \<Rightarrow> error + (string \<times> string)" where
  "scanstring [] = Inl JSONDecodeError"
| "scanstring (c # cs) =
     (if c = CHR 0x22 then Inr ([], cs)
      else if c = CHR 0x5C then
        (case cs of
           [] \<Rightarrow> Inl JSONDecodeError
         | e # cs1 \<Rightarrow>
             if e = CHR ''u'' then
               (case cs1 of
                  h1 # h2 # h3 # h4 # cs2 \<Rightarrow>
                    (case decode_uXXXX h1 h2 h3 h4 of
                       None \<Rightarrow> Inl JSONDecodeError
                     | Some n \<Rightarrow>
                         if n < 256 then cons_chunk (char_of n) (scanstring cs2)
                         else Inl NotModelled)
                | _ \<Rightarrow> Inl JSONDecodeError)
             else
               (case backslash e of
                  None \<Rightarrow> Inl JSONDecodeError
                | Some ch \<Rightarrow> cons_chunk ch (scanstring cs1)))
      else if (of_char c :: nat) < 0x20 then Inl JSONDecodeError
      else cons_chunk c (scanstring cs))"

definition digit_val :: "char \<Rightarrow> nat" where
  "digit_val c = of_char c - 48"

definition nat_of_digits :: "string \<Rightarrow> nat" where
  "nat_of_digits ds = foldl (\<lambda>acc c. 10 * acc + digit_val c) 0 ds"

definition has_frac :: "string \<Rightarrow> bool" where
  "has_frac s = (case s of c # d # _ \<Rightarrow> c = CHR ''.'' \<and> is_digit d | _ \<Rightarrow> False)"

definition has_exp :: "string \<Rightarrow> bool" where
  "has_exp s =
     (case s of
        c # d # r \<Rightarrow>
          (c = CHR ''e'' \<or> c = CHR ''E'')
          \<and> (is_digit d
               \<or> ((d = CHR ''+'' \<or> d = CHR ''-'') \<and> (case r of d2 # _ \<Rightarrow> is_digit d2 | [] \<Rightarrow> False)))
      | _ \<Rightarrow> False)"

definition scan_constant :: "string \<Rightarrow> error + (json \<times> string)" where
  "scan_constant s =
     (if startswith s ''NaN'' \<or> startswith s ''Infinity'' \<or> startswith s ''-Infinity''
      then Inl NotModelled else Inl JSONDecodeError)"

definition scan_number :: "string \<Rightarrow> error + (json \<times> string)" where
  "scan_number s =
     (let neg = startswith s ''-'';
          t = (if neg then tl s else s)
      in case t of
           [] \<Rightarrow> scan_constant s
         | d # ds \<Rightarrow>
             if \<not> is_digit d then scan_constant s
             else
               let integer = (if d = CHR ''0'' then [d] else d # takeWhile is_digit ds);
                   rest = (if d = CHR ''0'' then ds else dropWhile is_digit ds)
               in if has_frac rest \<or> has_exp rest then Inl NotModelled
                  else Inr (JInt (if neg then - int (nat_of_digits integer)
                                  else int (nat_of_digits integer)), rest))"

text \<open>
  \<^verbatim>\<open>d[k] = v\<close> on a dictionary: an existing key keeps its place and takes the new value,
  a new key goes to the end. \<^verbatim>\<open>dict(pairs)\<close> stores the pairs one after the other.
\<close>

fun dict_set :: "(string \<times> 'v) list \<Rightarrow> string \<Rightarrow> 'v \<Rightarrow> (string \<times> 'v) list" where
  "dict_set [] k v = [(k, v)]"
| "dict_set ((k', v') # d) k v = (if k' = k then (k, v) # d else (k', v') # dict_set d k v)"

definition dict_of_pairs :: "(string \<times> 'v) list \<Rightarrow> (string \<times> 'v) list" where
  "dict_of_pairs ps = foldl (\<lambda>d (k, v). dict_set d k v) [] ps"

text \<open>
  \<^verbatim>\<open>scan_once\<close>, \<^verbatim>\<open>JSONArray\<close> and \<^verbatim>\<open>JSONObject\<close>. The first argument bounds the depth of
  the recursion. \<open>parse_array\<close> starts at the first character of an element,
  \<open>parse_object\<close> just after the opening quote of a key.
\<close>

fun parse_value :: "nat \<Rightarrow> string \<Rightarrow> error + (json \<times> string)"
and parse_array :: "nat \<Rightarrow> string \<Rightarrow> error + (json list \<times> string)"
and parse_object :: "nat \<Rightarrow> string \<Rightarrow> error + ((string \<times> json) list \<times> string)" where
  "parse_value 0 s = Inl OutOfFuel"
| "parse_value (Suc n) s =
     (case s of
        [] \<Rightarrow> Inl JSONDecodeError
      | c # cs \<Rightarrow>
          if c = CHR 0x22 then
            (case scanstring cs of
               Inl e \<Rightarrow> Inl e
             | Inr (str, rest) \<Rightarrow> Inr (JStr str, rest))
          else if c = CHR ''{'' then
            (case skip_ws cs of
               [] \<Rightarrow> Inl JSONDecodeError
             | d # ds \<Rightarrow>
                 if d = CHR ''}'' then Inr (JDict [], ds)
                 else if d \<noteq> CHR 0x22 then Inl JSONDecodeError
                 else
                   (case parse_object n ds of
                      Inl e \<Rightarrow> Inl e
                    | Inr (pairs, rest) \<Rightarrow> Inr (JDict (dict_of_pairs pairs), rest)))
          else if c = CHR ''['' then
            (case skip_ws cs of
               [] \<Rightarrow> Inl JSONDecodeError
             | d # ds \<Rightarrow>
                 if d = CHR '']'' then Inr (JList [], ds)
                 else
                   (case parse_array n (d # ds) of
                      Inl e \<Rightarrow> Inl e
                    | Inr (vs, rest) \<Rightarrow> Inr (JList vs, rest)))
          else if startswith s ''null'' then Inr (JNull, drop 4 s)
          else if startswith s ''true'' then Inr (JBool True, drop 4 s)
          else if startswith s ''false'' then Inr (JBool False, drop 5 s)
          else scan_number s)"
| "parse_array 0 s = Inl OutOfFuel"
| "parse_array (Suc n) s =
     (case parse_value n s of
        Inl e \<Rightarrow> Inl e
      | Inr (v, rest) \<Rightarrow>
          (case skip_ws rest of
             [] \<Rightarrow> Inl JSONDecodeError
           | c # cs \<Rightarrow>
               if c = CHR '']'' then Inr ([v], cs)
               else if c \<noteq> CHR '','' then Inl JSONDecodeError
               else
                 (case parse_array n (skip_ws cs) of
                    Inl e \<Rightarrow> Inl e
                  | Inr (vs, rest') \<Rightarrow> Inr (v # vs, rest'))))"
| "parse_object 0 s = Inl OutOfFuel"
| "parse_object (Suc n) s =
     (case scanstring s of
        Inl e \<Rightarrow> Inl e
      | Inr (key, rest) \<Rightarrow>
          (case skip_ws rest of
             [] \<Rightarrow> Inl JSONDecodeError
           | c # cs \<Rightarrow>
               if c \<noteq> CHR '':'' then Inl JSONDecodeError
               else
                 (case parse_value n (skip_ws cs) of
                    Inl e \<Rightarrow> Inl e
                  | Inr (v, rest1) \<Rightarrow>
                      (case skip_ws rest1 of
                         [] \<Rightarrow> Inl JSONDecodeError
                       | d # ds \<Rightarrow>
                           if d = CHR ''}'' then Inr ([(key, v)], ds)
                           else if d \<noteq> CHR '','' then Inl JSONDecodeError
                           else
                             (case skip_ws ds of
                                [] \<Rightarrow> Inl JSONDecodeError
                              | q # qs \<Rightarrow>
                                  if q \<noteq> CHR 0x22 then Inl JSONDecodeError
                                  else
                                    (case parse_object n qs of
                                       Inl e \<Rightarrow> Inl e
                                     | Inr (ps, rest2) \<Rightarrow> Inr ((key, v) # ps, rest2)))))))"

text \<open>
  \<^verbatim>\<open>json.loads(s)\<close>: white space, one value, white space, end of text.
\<close>

definition json_loads :: "string \<Rightarrow> error + json" where
  "json_loads s =
     (case parse_value (2 * length s + 1) (skip_ws s) of
        Inl e \<Rightarrow> Inl e
      | Inr (v, rest) \<Rightarrow> if skip_ws rest = [] then Inr v else Inl JSONDecodeError)"

section \<open>Page content store (models.py)\<close>

text \<open>
  The rows of the tables \<^verbatim>\<open>pages\<close>, \<^verbatim>\<open>content_blocks\<close> and \<^verbatim>\<open>buttons\<close>. A nullable
  column is an \<open>option\<close>. Timestamps are integers read from a clock that each request
  receives as the argument \<open>now\<close>.
\<close>

record Page =
  page_id :: nat
  page_slug :: string
  page_title :: string
  page_parent_slug :: "string option"
  page_content_json :: "string option"
  page_created_at :: int
  page_updated_at :: int

record ContentBlock =
  block_id :: nat
  block_page_id :: nat
  block_type :: string
  block_position :: "int option"
  block_content_json :: "string option"
  block_section_id :: "string option"
  block_created_at :: int
  block_updated_at :: int

record Button =
  button_id :: nat
  button_content_block_id :: nat
  button_icon_url :: "string option"
  button_label :: string
  button_description :: "string option"
  button_link_url :: string
  button_link_type :: "string option"
  button_position :: "int option"

text \<open>
  \<^verbatim>\<open>Page.get_content\<close> and \<^verbatim>\<open>ContentBlock.get_content\<close>, models.py lines 64-65 and 84-85:
  \<^verbatim>\<open>json.loads(self.content_json) if self.content_json else {}\<close>. Both \<^verbatim>\<open>None\<close> and the
  empty string are falsy; an exception of \<^verbatim>\<open>json.loads\<close> is not caught.
\<close>

definition get_content_of :: "string option \<Rightarrow> error + json" where
  "get_content_of content_json =
     (case content_json of
        None \<Rightarrow> Inr (JDict [])
      | Some s \<Rightarrow> if s = [] then Inr (JDict []) else json_loads s)"

definition Page_get_content :: "Page \<Rightarrow> error + json" where
  "Page_get_content self = get_content_of (page_content_json self)"

definition ContentBlock_get_content :: "ContentBlock \<Rightarrow> error + json" where
  "ContentBlock_get_content self = get_content_of (block_content_json self)"

text \<open>
  \<^verbatim>\<open>Page.set_content\<close> and \<^verbatim>\<open>ContentBlock.set_content\<close>, models.py lines 67-68 and 87-88:
  \<^verbatim>\<open>self.content_json = json.dumps(content)\<close>. The argument is any Python value that
  \<^verbatim>\<open>json.dumps\<close> accepts.
\<close>

definition Page_set_content :: "Page \<Rightarrow> pyval \<Rightarrow> Page" where
  "Page_set_content self content = self\<lparr>page_content_json := Some (py_dumps content)\<rparr>"

definition ContentBlock_set_content :: "ContentBlock \<Rightarrow> pyval \<Rightarrow> ContentBlock" where
  "ContentBlock_set_content self content =
     self\<lparr>block_content_json := Some (py_dumps content)\<rparr>"

text \<open>
  The database: the three tables, each in insertion order. A new row gets the integer
  primary key one above the largest in its table (1 in an empty table).
\<close>

record db =
  pages :: "Page list"
  content_blocks :: "ContentBlock list"
  buttons :: "Button list"

definition next_id :: "nat list \<Rightarrow> nat" where
  "next_id ids = Suc (foldr max ids 0)"

text \<open>\<^verbatim>\<open>Page.query.filter_by(slug=slug).first()\<close>.\<close>

definition find_page :: "db \<Rightarrow> string \<Rightarrow> Page option" where
  "find_page st slug = find (\<lambda>p. page_slug p = slug) (pages st)"

text \<open>\<^verbatim>\<open>ContentBlock.query.filter_by(page_id=page.id, section_id=section_id).first()\<close>.\<close>

definition find_block :: "db \<Rightarrow> nat \<Rightarrow> string \<Rightarrow> ContentBlock option" where
  "find_block st pid section_id =
     find (\<lambda>b. block_page_id b = pid \<and> block_section_id b = Some section_id) (content_blocks st)"

text \<open>
  \<^verbatim>\<open>db.session.query(db.func.max(Button.position)).filter_by(content_block_id=...).scalar()\<close>:
  the SQL aggregate skips \<^verbatim>\<open>NULL\<close> positions and is \<^verbatim>\<open>NULL\<close> (Python \<^verbatim>\<open>None\<close>) when no
  position is left.
\<close>

definition block_positions :: "db \<Rightarrow> nat \<Rightarrow> int list" where
  "block_positions st bid =
     concat (map (\<lambda>b. case button_position b of None \<Rightarrow> [] | Some p \<Rightarrow> [p])
                 (filter (\<lambda>b. button_content_block_id b = bid) (buttons st)))"

definition max_position :: "db \<Rightarrow> nat \<Rightarrow> int option" where
  "max_position st bid =
     (case block_positions st bid of [] \<Rightarrow> None | p # ps \<Rightarrow> Some (foldl max p ps))"

text \<open>Python's \<^verbatim>\<open>x or 0\<close> on an optional integer: \<^verbatim>\<open>None\<close> and \<^verbatim>\<open>0\<close> are falsy.\<close>

definition or_0 :: "int option \<Rightarrow> int" where
  "or_0 x = (case x of None \<Rightarrow> 0 | Some m \<Rightarrow> if m = 0 then 0 else m)"

section \<open>Routes (app.py)\<close>

text \<open>
  \<^verbatim>\<open>slug.replace('-', ' ').title()\<close>. \<^verbatim>\<open>str.title\<close> walks the string once: a cased
  character is upper-cased when the character before it is not cased and lower-cased
  otherwise. The model knows the ASCII letters as cased; every other character is left
  as it is and counts as not cased.
\<close>

definition replace_hyphen :: "string \<Rightarrow> string" where
  "replace_hyphen s = map (\<lambda>c. if c = CHR ''-'' then CHR '' '' else c) s"

definition is_lower :: "char \<Rightarrow> bool" where
  "is_lower c = (97 \<le> (of_char c :: nat) \<and> (of_char c :: nat) \<le> 122)"

definition is_upper :: "char \<Rightarrow> bool" where
  "is_upper c = (65 \<le> (of_char c :: nat) \<and> (of_char c :: nat) \<le> 90)"

definition to_upper :: "char \<Rightarrow> char" where
  "to_upper c = (if is_lower c then char_of ((of_char c :: nat) - 32) else c)"

definition to_lower :: "char \<Rightarrow> char" where
  "to_lower c = (if is_upper c then char_of ((of_char c :: nat) + 32) else c)"

fun title_from :: "bool \<Rightarrow> string \<Rightarrow> string" where
  "title_from previous_is_cased [] = []"
| "title_from previous_is_cased (c # cs) =
     (if is_lower c \<or> is_upper c
      then (if previous_is_cased then to_lower c else to_upper c) # title_from True cs
      else c # title_from False cs)"

definition str_title :: "string \<Rightarrow> string" where
  "str_title s = title_from False s"

definition humanize :: "string \<Rightarrow> string" where
  "humanize slug = str_title (replace_hyphen slug)"


text \<open>
  \<^verbatim>\<open>Page(slug=..., title=...)\<close> followed by \<^verbatim>\<open>db.session.add\<close> and a flush or commit: the
  row is inserted with the column defaults (\<^verbatim>\<open>content_json = '{}'\<close>, both timestamps the
  current time).
\<close>

definition insert_page :: "db \<Rightarrow> string \<Rightarrow> string \<Rightarrow> int \<Rightarrow> Page \<times> db" where
  "insert_page st slug title now =
     (let p = \<lparr>page_id = next_id (map page_id (pages st)), page_slug = slug,
                page_title = title, page_parent_slug = None,
                page_content_json = Some ''{}'', page_created_at = now,
                page_updated_at = now\<rparr>
      in (p, st\<lparr>pages := pages st @ [p]\<rparr>))"

text \<open>
  The lookup-or-create of a page, as \<^verbatim>\<open>page\<close> (lines 268-272) and \<^verbatim>\<open>create_button\<close>
  (lines 331-335) write it: the title is \<^verbatim>\<open>slug.replace('-', ' ').title()\<close> of the whole
  slug.
\<close>

definition get_or_create_page :: "db \<Rightarrow> string \<Rightarrow> int \<Rightarrow> Page \<times> db" where
  "get_or_create_page st slug now =
     (case find_page st slug of
        Some p \<Rightarrow> (p, st)
      | None \<Rightarrow> insert_page st slug (humanize slug) now)"

text \<open>
  The lookup-or-create of a block in \<^verbatim>\<open>create_button\<close>, lines 336-340. The lookup reads
  the page id and the section id only; a created block has the type \<^verbatim>\<open>button_grid\<close> and
  the column defaults.
\<close>

definition get_or_create_block :: "db \<Rightarrow> nat \<Rightarrow> string \<Rightarrow> int \<Rightarrow> ContentBlock \<times> db" where
  "get_or_create_block st pid section_id now =
     (case find_block st pid section_id of
        Some b \<Rightarrow> (b, st)
      | None \<Rightarrow>
          (let b = \<lparr>block_id = next_id (map block_id (content_blocks st)),
                     block_page_id = pid, block_type = ''button_grid'',
                     block_position = Some 0, block_content_json = Some ''{}'',
                     block_section_id = Some section_id, block_created_at = now,
                     block_updated_at = now\<rparr>
           in (b, st\<lparr>content_blocks := content_blocks st @ [b]\<rparr>)))"

text \<open>\<^verbatim>\<open>data.get(key, default)\<close> on the submitted form, a list of fields.\<close>

definition form_get :: "(string \<times> string) list \<Rightarrow> string \<Rightarrow> string \<Rightarrow> string" where
  "form_get data k d = (case map_of data k of None \<Rightarrow> d | Some v \<Rightarrow> v)"

text \<open>
  \<^verbatim>\<open>create_button\<close>, app.py lines 325-353. \<^verbatim>\<open>@login_required\<close> answers an
  unauthenticated caller before the body runs. The body never calls \<^verbatim>\<open>can_edit\<close>.
  The result is the JSON of the response and the database after the commit.
\<close>

definition create_button ::
  "current_user \<Rightarrow> db \<Rightarrow> (string \<times> string) list \<Rightarrow> int \<Rightarrow> (error + json) \<times> db" where
  "create_button cu st data now =
     (if \<not> is_authenticated cu then (Inl Unauthorized, st)
      else
        let page_slug = form_get data ''page_slug'' ''home'';
            section_id = form_get data ''section_id'' ''main-nav'';
            (pg, st1) = get_or_create_page st page_slug now;
            (content_block, st2) = get_or_create_block st1 (page_id pg) section_id now;
            max_pos = or_0 (max_position st2 (block_id content_block));
            button = \<lparr>button_id = next_id (map button_id (buttons st2)),
                       button_content_block_id = block_id content_block,
                       button_icon_url = Some (form_get data ''icon_url'' ''''),
                       button_label = form_get data ''label'' ''New Button'',
                       button_description = Some (form_get data ''description'' ''''),
                       button_link_url = form_get data ''link_url'' ''#'',
                       button_link_type = Some (form_get data ''link_type'' ''internal''),
                       button_position = Some (max_pos + 1)\<rparr>
        in (Inr (JDict [(''success'', JBool True), (''id'', JInt (int (button_id button)))]),
            st2\<lparr>buttons := buttons st2 @ [button]\<rparr>))"

text \<open>\<^verbatim>\<open>d.get(key, default)\<close> and \<^verbatim>\<open>d[key] = value\<close> on a dictionary.\<close>

definition dict_get :: "(string \<times> json) list \<Rightarrow> string \<Rightarrow> json \<Rightarrow> json" where
  "dict_get d k dflt = (case map_of d k of None \<Rightarrow> dflt | Some v \<Rightarrow> v)"

text \<open>
  \<^verbatim>\<open>update_page_content\<close>, app.py lines 355-368. \<open>data\<close> is \<^verbatim>\<open>request.get_json()\<close>, the
  parsed request body. A page that does not exist yet is a new object whose
  \<^verbatim>\<open>content_json\<close> is still \<^verbatim>\<open>None\<close>; it is inserted by the commit. An exception leaves the
  function before the commit, so the database stays as it was. The body never calls
  \<^verbatim>\<open>can_edit\<close>.
\<close>

definition update_page_content ::
  "current_user \<Rightarrow> db \<Rightarrow> string \<Rightarrow> json \<Rightarrow> int \<Rightarrow> (error + json) \<times> db" where
  "update_page_content cu st slug data now =
     (if \<not> is_authenticated cu then (Inl Unauthorized, st)
      else
        let existing = find_page st slug;
            pg = (case existing of
                    Some p \<Rightarrow> p
                  | None \<Rightarrow> \<lparr>page_id = next_id (map page_id (pages st)), page_slug = slug,
                               page_title = humanize slug, page_parent_slug = None,
                               page_content_json = None, page_created_at = now,
                               page_updated_at = now\<rparr>)
        in case Page_get_content pg of
             Inl e \<Rightarrow> (Inl e, st)
           | Inr content \<Rightarrow>
               (case data of
                  JDict body \<Rightarrow>
                    (case content of
                       JDict d \<Rightarrow>
                         (let pg' = (Page_set_content pg
                                       (of_json
                                          (JDict (dict_set d ''html''
                                                   (dict_get body ''content'' (JStr ''''))))))
                                    \<lparr>page_updated_at := now\<rparr>
                          in (Inr (JDict [(''success'', JBool True)]),
                              st\<lparr>pages :=
                                   (case existing of
                                      Some p \<Rightarrow>
                                        map (\<lambda>q. if page_id q = page_id p then pg' else q)
                                            (pages st)
                                    | None \<Rightarrow> pages st @ [pg'])\<rparr>))
                     | _ \<Rightarrow> (Inl TypeError, st))
                | _ \<Rightarrow> (Inl AttributeError, st)))"




section \<open>Auxiliary notions for the proofs\<close>

text \<open>
  A Python dictionary holds each key once. \<open>distinct_keys\<close> says so of every dictionary
  inside a value.
\<close>

fun distinct_keys :: "json \<Rightarrow> bool"
and distinct_keys_list :: "json list \<Rightarrow> bool"
and distinct_keys_items :: "(string \<times> json) list \<Rightarrow> bool" where
  "distinct_keys JNull = True"
| "distinct_keys (JBool b) = True"
| "distinct_keys (JInt i) = True"
| "distinct_keys (JStr s) = True"
| "distinct_keys (JList xs) = distinct_keys_list xs"
| "distinct_keys (JDict kvs) = (distinct (map fst kvs) \<and> distinct_keys_items kvs)"
| "distinct_keys_list [] = True"
| "distinct_keys_list (x # xs) = (distinct_keys x \<and> distinct_keys_list xs)"
| "distinct_keys_items [] = True"
| "distinct_keys_items ((k, v) # kvs) = (distinct_keys v \<and> distinct_keys_items kvs)"

text \<open>A recursion bound that is enough to read back the text of a value.\<close>

fun fuel_json :: "json \<Rightarrow> nat"
and fuel_list :: "json list \<Rightarrow> nat"
and fuel_items :: "(string \<times> json) list \<Rightarrow> nat" where
  "fuel_json JNull = 1"
| "fuel_json (JBool b) = 1"
| "fuel_json (JInt i) = 1"
| "fuel_json (JStr s) = 1"
| "fuel_json (JList xs) = Suc (fuel_list xs)"
| "fuel_json (JDict kvs) = Suc (fuel_items kvs)"
| "fuel_list [] = 0"
| "fuel_list (x # xs) = Suc (fuel_json x + fuel_list xs)"
| "fuel_items [] = 0"
| "fuel_items ((k, v) # kvs) = Suc (fuel_json v + fuel_items kvs)"

text \<open>What may follow the text of an integer without being read as part of the number.\<close>

definition num_follow :: "string \<Rightarrow> bool" where
  "num_follow rest =
     (case rest of [] \<Rightarrow> True
      | c # _ \<Rightarrow> \<not> is_digit c \<and> c \<noteq> CHR ''.'' \<and> c \<noteq> CHR ''e'' \<and> c \<noteq> CHR ''E'')"

section \<open>Lemmas about the json model\<close>

lemma hex_digits_decode: "list_all (\<lambda>k. hex_val (hex_digit k) = Some k) [0..<16]"
  by code_simp

lemma hex_val_hex_digit: "n < 16 \<Longrightarrow> hex_val (hex_digit n) = Some n"
  using hex_digits_decode by (simp add: list_all_iff)

lemma of_char_lt_256: "(of_char c :: nat) < 256"
proof -
  have "(of_char c :: nat) mod 256 < 256" by (rule mod_less_divisor) simp
  then show ?thesis by simp
qed

lemma hex_val_zero: "hex_val CHR ''0'' = Some 0"
  by (simp add: hex_val_def)

lemma decode_uXXXX_encode:
  "decode_uXXXX CHR ''0'' CHR ''0'' (hex_digit (of_char c div 16)) (hex_digit (of_char c mod 16))
     = Some (of_char c)"
proof -
  have "(of_char c :: nat) < 256"
    by (rule of_char_lt_256) 
  then have d: "(of_char c :: nat) div 16 < 16" by arith
  have m: "(of_char c :: nat) mod 16 < 16" by simp
  show ?thesis
    by (simp add: decode_uXXXX_def hex_val_zero hex_val_hex_digit [OF d] hex_val_hex_digit [OF m])
qed

lemma scanstring_encode_char:
  "scanstring (encode_char c @ t) = cons_chunk c (scanstring t)"
proof -
  have lt: "(of_char c :: nat) < 256" by (rule of_char_lt_256) 
  consider (special) "c \<in> {CHR 0x22, CHR 0x5C, CHR 0x0A, CHR 0x0D, CHR 0x09, CHR 0x08, CHR 0x0C}"
    | (plain) "c \<notin> {CHR 0x22, CHR 0x5C, CHR 0x0A, CHR 0x0D, CHR 0x09, CHR 0x08, CHR 0x0C}"
        "0x20 \<le> (of_char c :: nat) \<and> (of_char c :: nat) \<le> 0x7E"
    | (hex) "c \<notin> {CHR 0x22, CHR 0x5C, CHR 0x0A, CHR 0x0D, CHR 0x09, CHR 0x08, CHR 0x0C}"
        "\<not> (0x20 \<le> (of_char c :: nat) \<and> (of_char c :: nat) \<le> 0x7E)"
    by blast
  then show ?thesis
  proof cases
    case special
    then show ?thesis
      by (auto simp: encode_char_def backslash_def)
  next
    case plain
    then show ?thesis
      by (simp add: encode_char_def)
  next
    case hex
    then show ?thesis
      using lt by (simp add: encode_char_def decode_uXXXX_encode backslash_def)
  qed
qed

lemma scanstring_encode:
  "scanstring (concat (map encode_char s) @ CHR 0x22 # rest) = Inr (s, rest)"
  by (induction s) (simp_all add: scanstring_encode_char cons_chunk_def)

lemma encode_basestring_ascii_tl:
  "parse_value (Suc n) (encode_basestring_ascii s @ rest) = Inr (JStr s, rest)"
  by (simp add: encode_basestring_ascii_def scanstring_encode)

lemma is_digit_char_of: "(k::nat) < 10 \<Longrightarrow> is_digit (char_of (48 + k))"
  by (simp add: is_digit_def)

lemma digit_val_char_of: "(k::nat) < 10 \<Longrightarrow> digit_val (char_of (48 + k)) = k"
  by (simp add: digit_val_def)

lemma digits_not_Nil: "digits n \<noteq> []"
  by (subst digits.simps) simp

lemma digits_all_digit: "list_all is_digit (digits n)"
proof (induction n rule: digits.induct)
  case (1 n)
  show ?case
  proof (cases "n < 10")
    case True
    then show ?thesis by (subst digits.simps) (simp add: is_digit_char_of)
  next
    case False
    then show ?thesis using 1 by (subst digits.simps) (simp add: is_digit_char_of)
  qed
qed

lemma nat_of_digits_snoc: "nat_of_digits (ds @ [c]) = 10 * nat_of_digits ds + digit_val c"
  by (simp add: nat_of_digits_def)

lemma nat_of_digits_digits: "nat_of_digits (digits n) = n"
proof (induction n rule: digits.induct)
  case (1 n)
  show ?case
  proof (cases "n < 10")
    case True
    then show ?thesis
      by (subst digits.simps) (simp add: nat_of_digits_def digit_val_char_of)
  next
    case False
    then show ?thesis using 1
      by (subst digits.simps) (simp add: nat_of_digits_snoc digit_val_char_of)
  qed
qed

lemma hd_digits_zero: "hd (digits n) = CHR ''0'' \<Longrightarrow> n = 0"
proof (induction n rule: digits.induct)
  case (1 n)
  show ?case
  proof (cases "n < 10")
    case True
    with "1.prems" have "char_of (48 + n) = CHR ''0''"
      by (subst (asm) digits.simps) simp
    then have "(of_char (char_of (48 + n) :: char) :: nat) = of_char CHR ''0''" by simp
    with True show ?thesis by simp
  next
    case False
    with "1.prems" have "hd (digits (n div 10)) = CHR ''0''"
      by (subst (asm) digits.simps) (simp add: digits_not_Nil)
    with False "1.IH" have "n div 10 = 0" by simp
    with False show ?thesis by simp
  qed
qed

lemma digits_zero: "digits 0 = ''0''"
  by (subst digits.simps) (simp add: char_of_eq_iff)

lemma hd_digits_is_digit: "is_digit (hd (digits n))"
  using digits_all_digit [of n] digits_not_Nil [of n] by (cases "digits n") simp_all

lemma takeWhile_digits: "num_follow rest \<Longrightarrow> list_all is_digit ds \<Longrightarrow> takeWhile is_digit (ds @ rest) = ds"
  by (induction ds) (auto simp: num_follow_def split: list.splits)

lemma dropWhile_digits: "num_follow rest \<Longrightarrow> list_all is_digit ds \<Longrightarrow> dropWhile is_digit (ds @ rest) = rest"
  by (induction ds) (auto simp: num_follow_def split: list.splits)

lemma num_follow_no_float: "num_follow rest \<Longrightarrow> \<not> has_frac rest \<and> \<not> has_exp rest"
  by (auto simp: num_follow_def has_frac_def has_exp_def split: list.splits)

lemma is_digit_not_minus: "is_digit c \<Longrightarrow> c \<noteq> CHR ''-''"
  by (auto simp: is_digit_def)

lemma scan_digits:
  assumes "num_follow rest"
  shows "(case digits n @ rest of
            [] \<Rightarrow> X
          | d # ds \<Rightarrow>
              if \<not> is_digit d then Y
              else
                let integer = (if d = CHR ''0'' then [d] else d # takeWhile is_digit ds);
                    rest' = (if d = CHR ''0'' then ds else dropWhile is_digit ds)
                in F integer rest') = F (digits n) rest"
proof (cases "digits n")
  case Nil
  then show ?thesis using digits_not_Nil by simp
next
  case (Cons d ds0)
  have d: "is_digit d" and ds0: "list_all is_digit ds0"
    using digits_all_digit [of n] Cons by simp_all
  show ?thesis
  proof (cases "d = CHR ''0''")
    case True
    then have "n = 0" using hd_digits_zero [of n] Cons by simp
    then have "ds0 = []" using Cons digits_zero by simp
    then show ?thesis using Cons True d by simp
  next
    case False
    then show ?thesis
      using Cons d takeWhile_digits [OF assms ds0] dropWhile_digits [OF assms ds0]
      by simp
  qed
qed

lemma scan_number_int_repr:
  assumes "num_follow rest"
  shows "scan_number (int_repr i @ rest) = Inr (JInt i, rest)"
proof (cases "i < 0")
  case True
  have "scan_number (CHR ''-'' # digits (nat (- i)) @ rest) = Inr (JInt i, rest)"
    unfolding scan_number_def
    using True num_follow_no_float [OF assms]
    by (simp add: startswith_def Let_def scan_digits [OF assms] nat_of_digits_digits)
  then show ?thesis using True by (simp add: int_repr_def)
next
  case False
  have nm: "\<not> startswith (digits (nat i) @ rest) ''-''"
    using hd_digits_is_digit [of "nat i"] digits_not_Nil [of "nat i"]
    by (cases "digits (nat i)") (auto simp: startswith_def dest: is_digit_not_minus)
  have "scan_number (digits (nat i) @ rest) = Inr (JInt i, rest)"
    unfolding scan_number_def
    using False num_follow_no_float [OF assms] nm
    by (simp add: Let_def scan_digits [OF assms] nat_of_digits_digits)
  then show ?thesis using False by (simp add: int_repr_def)
qed

lemma skip_ws_Cons: "\<not> is_ws c \<Longrightarrow> skip_ws (c # cs) = c # cs"
  by (simp add: skip_ws_def)

lemma skip_ws_space: "skip_ws (CHR '' '' # cs) = skip_ws cs"
  by (simp add: skip_ws_def is_ws_def)

lemma is_digit_not_ws: "is_digit c \<Longrightarrow> \<not> is_ws c"
  by (auto simp: is_digit_def is_ws_def)

lemma int_repr_Cons: "\<exists>c cs. int_repr i = c # cs \<and> (c = CHR ''-'' \<or> is_digit c)"
proof (cases "i < 0")
  case True
  then show ?thesis by (simp add: int_repr_def)
next
  case False
  then show ?thesis
    using hd_digits_is_digit [of "nat i"] digits_not_Nil [of "nat i"]
    by (cases "digits (nat i)") (simp_all add: int_repr_def)
qed

lemma encode_basestring_ascii_Cons:
  "encode_basestring_ascii s = CHR 0x22 # concat (map encode_char s) @ [CHR 0x22]"
  by (simp add: encode_basestring_ascii_def)

lemma is_digit_not_close: "is_digit c \<Longrightarrow> c \<noteq> CHR '']''"
  by (auto simp: is_digit_def)

lemma dumps_Cons: "\<exists>c cs. json_dumps v = c # cs \<and> \<not> is_ws c \<and> c \<noteq> CHR '']''"
proof (cases v)
  case (JInt i)
  then show ?thesis
    using int_repr_Cons [of i]
    by (auto simp: is_ws_def is_digit_def)
qed (auto simp: is_ws_def encode_basestring_ascii_def)

lemma skip_ws_dumps: "skip_ws (json_dumps v @ rest) = json_dumps v @ rest"
  using dumps_Cons [of v] by (auto simp: skip_ws_Cons)

lemma dumps_list_Cons:
  "xs \<noteq> [] \<Longrightarrow> \<exists>c cs. dumps_list xs = c # cs \<and> \<not> is_ws c \<and> c \<noteq> CHR '']''"
  using dumps_Cons by (cases xs) fastforce+

lemma skip_ws_dumps_list: "xs \<noteq> [] \<Longrightarrow> skip_ws (dumps_list xs @ rest) = dumps_list xs @ rest"
  using dumps_list_Cons [of xs] by (auto simp: skip_ws_Cons)

lemma dumps_items_Cons: "kvs \<noteq> [] \<Longrightarrow> \<exists>cs. dumps_items kvs = CHR 0x22 # cs"
  by (cases kvs) (auto simp: encode_basestring_ascii_def)

lemma dict_set_fresh: "k \<notin> fst ` set d \<Longrightarrow> dict_set d k v = d @ [(k, v)]"
  by (induction d) auto

lemma dict_of_pairs_acc:
  "distinct (map fst (acc @ ps)) \<Longrightarrow> foldl (\<lambda>d (k, v). dict_set d k v) acc ps = acc @ ps"
proof (induction ps arbitrary: acc)
  case Nil
  then show ?case by simp
next
  case (Cons p ps)
  obtain k v where p: "p = (k, v)" by (cases p)
  from Cons.prems p have fresh: "k \<notin> fst ` set acc" by auto
  from Cons.prems p have "distinct (map fst ((acc @ [(k, v)]) @ ps))" by auto
  from Cons.IH [OF this] show ?case
    by (simp add: p dict_set_fresh [OF fresh])
qed

lemma dict_of_pairs_distinct: "distinct (map fst ps) \<Longrightarrow> dict_of_pairs ps = ps"
  using dict_of_pairs_acc [of "[]" ps] by (simp add: dict_of_pairs_def)

lemma parse_value_int:
  assumes "num_follow rest"
  shows "parse_value (Suc n) (int_repr i @ rest) = Inr (JInt i, rest)"
proof -
  obtain c cs where c: "int_repr i = c # cs" "c = CHR ''-'' \<or> is_digit c"
    using int_repr_Cons by blast
  from c(2) have "c \<noteq> CHR 0x22" "c \<noteq> CHR ''{''" "c \<noteq> CHR ''[''"
    "c \<noteq> CHR ''n''" "c \<noteq> CHR ''t''" "c \<noteq> CHR ''f''"
    by (auto simp: is_digit_def)
  then have "parse_value (Suc n) (int_repr i @ rest) = scan_number (int_repr i @ rest)"
    by (simp add: c(1) startswith_def)
  then show ?thesis by (simp add: scan_number_int_repr [OF assms])
qed

lemma num_follow_simps:
  "num_follow (CHR '','' # t)" "num_follow (CHR '']'' # t)" "num_follow (CHR ''}'' # t)" "num_follow []"
  by (simp_all add: num_follow_def is_digit_def)

lemma skip_ws_punct:
  "skip_ws (CHR '','' # t) = CHR '','' # t" "skip_ws (CHR '']'' # t) = CHR '']'' # t"
  "skip_ws (CHR ''}'' # t) = CHR ''}'' # t" "skip_ws (CHR '':'' # t) = CHR '':'' # t"
  "skip_ws (CHR 0x22 # t) = CHR 0x22 # t"
  by (simp_all add: skip_ws_def is_ws_def)

lemma parse_dumps:
  "fuel_json v \<le> n \<Longrightarrow> distinct_keys v \<Longrightarrow> num_follow rest
     \<Longrightarrow> parse_value n (json_dumps v @ rest) = Inr (v, rest)"
  "xs \<noteq> [] \<Longrightarrow> fuel_list xs \<le> n \<Longrightarrow> distinct_keys_list xs
     \<Longrightarrow> parse_array n (dumps_list xs @ CHR '']'' # rest) = Inr (xs, rest)"
  "kvs \<noteq> [] \<Longrightarrow> fuel_items kvs \<le> n \<Longrightarrow> distinct_keys_items kvs
     \<Longrightarrow> parse_object n (tl (dumps_items kvs) @ CHR ''}'' # rest) = Inr (kvs, rest)"
proof (induction v and xs and kvs arbitrary: n rest and n rest and n rest
       rule: fuel_json_fuel_list_fuel_items.induct)
  case 1
  then obtain m where "n = Suc m" by (cases n) auto
  then show ?case by (simp add: startswith_def)
next
  case (2 b)
  then obtain m where "n = Suc m" by (cases n) auto
  then show ?case by (simp add: startswith_def)
next
  case (3 i)
  then obtain m where "n = Suc m" by (cases n) auto
  then show ?case using "3.prems"(3) by (simp only: json_dumps.simps parse_value_int)
next
  case (4 s)
  then obtain m where "n = Suc m" by (cases n) auto
  then show ?case by (simp only: json_dumps.simps encode_basestring_ascii_tl)
next
  case (5 xs)
  then obtain m where n: "n = Suc m" by (cases n) auto
  show ?case
  proof (cases "xs = []")
    case True
    then show ?thesis by (simp add: n skip_ws_punct)
  next
    case False
    obtain c cs where c: "dumps_list xs = c # cs" "\<not> is_ws c" and c': "c \<noteq> CHR '']''"
      using dumps_list_Cons [OF False] by blast
    have "parse_array m (dumps_list xs @ CHR '']'' # rest) = Inr (xs, rest)"
      using 5 False n by simp
    then show ?thesis
      using c c' by (simp add: n skip_ws_Cons)
  qed
next
  case (6 kvs)
  then obtain m where n: "n = Suc m" by (cases n) auto
  show ?case
  proof (cases "kvs = []")
    case True
    then show ?thesis by (simp add: n skip_ws_punct)
  next
    case False
    obtain cs where c: "dumps_items kvs = CHR 0x22 # cs"
      using dumps_items_Cons [OF False] by blast
    have "parse_object m (tl (dumps_items kvs) @ CHR ''}'' # rest) = Inr (kvs, rest)"
      using 6 False n by simp
    then show ?thesis
      using c 6(3) by (simp add: n skip_ws_punct dict_of_pairs_distinct)
  qed
next
  case 7
  then show ?case by simp
next
  case (8 x xs)
  then obtain m where n: "n = Suc m" by (cases n) auto
  have x: "\<And>r. num_follow r \<Longrightarrow> parse_value m (json_dumps x @ r) = Inr (x, r)"
    using 8 n by simp
  show ?case
  proof (cases "xs = []")
    case True
    then show ?thesis
      using x [of "CHR '']'' # rest"] by (simp add: n num_follow_simps skip_ws_punct)
  next
    case False
    have "parse_array m (dumps_list xs @ CHR '']'' # rest) = Inr (xs, rest)"
      using 8 False n by simp
    then show ?thesis
      using False x [of "'', '' @ dumps_list xs @ CHR '']'' # rest"]
      by (simp add: n num_follow_simps skip_ws_punct skip_ws_space skip_ws_dumps_list)
  qed
next
  case 9
  then show ?case by simp
next
  case (10 k v kvs)
  then obtain m where n: "n = Suc m" by (cases n) auto
  have v: "\<And>r. num_follow r \<Longrightarrow> parse_value m (json_dumps v @ r) = Inr (v, r)"
    using 10 n by simp
  have key: "\<And>t. scanstring (tl (encode_basestring_ascii k) @ t) = Inr (k, t)"
    by (simp add: encode_basestring_ascii_def scanstring_encode)
  show ?case
  proof (cases "kvs = []")
    case True
    then show ?thesis
      using v [of "CHR ''}'' # rest"]
      by (simp add: n encode_basestring_ascii_Cons scanstring_encode num_follow_simps
          skip_ws_punct skip_ws_space skip_ws_dumps)
  next
    case False
    obtain cs where c: "dumps_items kvs = CHR 0x22 # cs"
      using dumps_items_Cons [OF False] by blast
    have "parse_object m (tl (dumps_items kvs) @ CHR ''}'' # rest) = Inr (kvs, rest)"
      using 10 False n by simp
    then show ?thesis
      using False c v [of "'', '' @ dumps_items kvs @ CHR ''}'' # rest"]
      by (simp add: n encode_basestring_ascii_Cons scanstring_encode num_follow_simps
          skip_ws_punct skip_ws_space skip_ws_dumps)
  qed
qed

lemma fuel_le_length:
  "fuel_json v \<le> length (json_dumps v)"
  "fuel_list xs \<le> Suc (length (dumps_list xs))"
  "fuel_items kvs \<le> Suc (length (dumps_items kvs))"
proof (induction v and xs and kvs rule: fuel_json_fuel_list_fuel_items.induct)
  case (3 i)
  then show ?case using int_repr_Cons [of i] by auto
next
  case (4 s)
  then show ?case by (simp add: encode_basestring_ascii_def)
qed auto

lemma json_loads_dumps:
  assumes "distinct_keys v"
  shows "json_loads (json_dumps v) = Inr v"
proof -
  have "fuel_json v \<le> 2 * length (json_dumps v) + 1"
    using fuel_le_length(1) [of v] by simp
  then have "parse_value (2 * length (json_dumps v) + 1) (json_dumps v @ []) = Inr (v, [])"
    using assms by (intro parse_dumps(1)) (simp_all add: num_follow_simps)
  then show ?thesis
    using skip_ws_dumps [of v "[]"] by (simp add: json_loads_def skip_ws_def)
qed

lemma dict_set_keys: "fst ` set (dict_set d k v) = insert k (fst ` set d)"
  by (induction d k v rule: dict_set.induct) (simp_all add: insert_commute)

lemma dict_set_distinct: "distinct (map fst d) \<Longrightarrow> distinct (map fst (dict_set d k v))"
  by (induction d k v rule: dict_set.induct) (auto simp: dict_set_keys)

lemma dict_set_distinct_keys_items:
  "distinct_keys_items d \<Longrightarrow> distinct_keys v \<Longrightarrow> distinct_keys_items (dict_set d k v)"
  by (induction d) auto

lemma dict_of_pairs_invariant:
  "distinct (map fst acc) \<Longrightarrow> distinct_keys_items acc \<Longrightarrow> distinct_keys_items ps
     \<Longrightarrow> distinct (map fst (foldl (\<lambda>d (k, v). dict_set d k v) acc ps))
         \<and> distinct_keys_items (foldl (\<lambda>d (k, v). dict_set d k v) acc ps)"
proof (induction ps arbitrary: acc)
  case Nil
  then show ?case by simp
next
  case (Cons p ps)
  obtain k v where p: "p = (k, v)" by (cases p)
  show ?case
    using Cons.prems p
    by (simp add: p) (intro Cons.IH dict_set_distinct dict_set_distinct_keys_items; simp)
qed

lemma dict_of_pairs_distinct_keys:
  "distinct_keys_items ps \<Longrightarrow> distinct_keys (JDict (dict_of_pairs ps))"
  using dict_of_pairs_invariant [of "[]" ps] by (simp add: dict_of_pairs_def)

lemma scan_number_distinct_keys: "scan_number s = Inr (v, rest) \<Longrightarrow> distinct_keys v"
  by (auto simp: scan_number_def scan_constant_def Let_def split: list.splits if_splits)

lemma parse_distinct_keys_aux:
  "(\<forall>s v rest. parse_value n s = Inr (v, rest) \<longrightarrow> distinct_keys v)
   \<and> (\<forall>s vs rest. parse_array n s = Inr (vs, rest) \<longrightarrow> distinct_keys_list vs)
   \<and> (\<forall>s ps rest. parse_object n s = Inr (ps, rest) \<longrightarrow> distinct_keys_items ps)"
proof (induction n)
  case 0
  then show ?case by simp
next
  case (Suc n)
  from Suc.IH have V: "\<And>s v rest. parse_value n s = Inr (v, rest) \<Longrightarrow> distinct_keys v"
    and A: "\<And>s vs rest. parse_array n s = Inr (vs, rest) \<Longrightarrow> distinct_keys_list vs"
    and O: "\<And>s ps rest. parse_object n s = Inr (ps, rest) \<Longrightarrow> distinct_keys_items ps"
    by blast+
  have "distinct_keys v" if "parse_value (Suc n) s = Inr (v, rest)" for s v rest
    using that
    by (auto split: sum.splits list.splits if_splits
        intro: A O scan_number_distinct_keys dict_of_pairs_distinct_keys)
  moreover have "distinct_keys_list vs" if "parse_array (Suc n) s = Inr (vs, rest)" for s vs rest
  proof -
    from that obtain v r where pv: "parse_value n s = Inr (v, r)"
      by (auto split: sum.splits)
    then have dv: "distinct_keys v" by (rule V)
    from that pv dv show ?thesis
      by (auto split: sum.splits list.splits if_splits) (erule A)+
  qed
  moreover have "distinct_keys_items ps" if "parse_object (Suc n) s = Inr (ps, rest)" for s ps rest
    using that by (auto split: sum.splits list.splits if_splits) (erule V O)+
  ultimately show ?case by blast
qed

lemma parse_value_distinct_keys: "parse_value n s = Inr (v, rest) \<Longrightarrow> distinct_keys v"
  using parse_distinct_keys_aux [of n] by blast

lemma json_loads_distinct_keys: "json_loads s = Inr v \<Longrightarrow> distinct_keys v"
  by (auto simp: json_loads_def simp del: parse_value.simps
      split: sum.splits if_splits dest: parse_value_distinct_keys)

lemma length_skip_ws: "length (skip_ws s) \<le> length s"
  by (simp add: skip_ws_def length_dropWhile_le)

lemma skip_ws_Cons_length: "skip_ws s = c # cs \<Longrightarrow> length cs < length s"
  using length_skip_ws [of s] by simp

lemma cons_chunk_Inr: "cons_chunk c r = Inr (x, rest) \<Longrightarrow> \<exists>y. r = Inr (y, rest)"
  by (auto simp: cons_chunk_def split: sum.splits)

lemma cons_chunk_fuel: "cons_chunk c r = Inl OutOfFuel \<Longrightarrow> r = Inl OutOfFuel"
  by (auto simp: cons_chunk_def split: sum.splits)

lemma scanstring_step:
  "scanstring s = Inl JSONDecodeError \<or> scanstring s = Inl NotModelled
   \<or> (\<exists>rest. scanstring s = Inr ([], rest) \<and> length rest < length s)
   \<or> (\<exists>c t. scanstring s = cons_chunk c (scanstring t) \<and> length t < length s)"
proof (cases s)
  case Nil
  then show ?thesis by simp
next
  case (Cons c cs)
  show ?thesis
  proof (cases "c = CHR 0x22")
    case True
    with Cons show ?thesis by simp
  next
    case nq: False
    show ?thesis
    proof (cases "c = CHR 0x5C")
      case False
      show ?thesis
      proof (cases "(of_char c :: nat) < 0x20")
        case True
        with False nq Cons show ?thesis by simp
      next
        case ge: False
        have "scanstring s = cons_chunk c (scanstring cs)" "length cs < length s"
          using False nq Cons ge by simp_all
        then show ?thesis by blast
      qed
    next
      case bs: True
      show ?thesis
      proof (cases cs)
        case Nil
        with bs Cons show ?thesis by simp
      next
        case cs: (Cons e cs1)
        show ?thesis
        proof (cases "e = CHR ''u''")
          case False
          show ?thesis
          proof (cases "backslash e")
            case None
            with False bs Cons cs show ?thesis by simp
          next
            case (Some a)
            have "scanstring s = cons_chunk a (scanstring cs1)" "length cs1 < length s"
              using False bs Cons cs Some by simp_all
            then show ?thesis by blast
          qed
        next
          case u: True
          show ?thesis
          proof (cases "\<exists>h1 h2 h3 h4 cs2. cs1 = h1 # h2 # h3 # h4 # cs2")
            case False
            then have "scanstring s = Inl JSONDecodeError"
              using bs Cons cs u by (simp split: list.splits)
            then show ?thesis by simp
          next
            case True
            then obtain h1 h2 h3 h4 cs2 where h: "cs1 = h1 # h2 # h3 # h4 # cs2" by blast
            show ?thesis
            proof (cases "decode_uXXXX h1 h2 h3 h4")
              case None
              with bs Cons cs u h show ?thesis by simp
            next
              case (Some n)
              show ?thesis
              proof (cases "n < 256")
                case False
                with Some bs Cons cs u h show ?thesis by simp
              next
                case True
                have "scanstring s = cons_chunk (char_of n) (scanstring cs2)"
                  "length cs2 < length s"
                  using True Some bs Cons cs u h by simp_all
                then show ?thesis by blast
              qed
            qed
          qed
        qed
      qed
    qed
  qed
qed

lemma scanstring_length: "scanstring s = Inr (x, rest) \<Longrightarrow> length rest < length s"
proof (induction s arbitrary: x rule: length_induct)
  case (1 s)
  from scanstring_step [of s] "1.prems"
  consider (fin) "length rest < length s"
    | (chunk) c t where "scanstring s = cons_chunk c (scanstring t)" "length t < length s"
    by auto
  then show ?case
  proof cases
    case fin
    then show ?thesis .
  next
    case chunk
    with "1.prems" obtain y where "scanstring t = Inr (y, rest)"
      by (auto dest: cons_chunk_Inr)
    with "1.IH" chunk(2) have "length rest < length t" by blast
    with chunk(2) show ?thesis by simp
  qed
qed

lemma scanstring_fuel: "scanstring s \<noteq> Inl OutOfFuel"
proof (induction s rule: length_induct)
  case (1 s)
  from scanstring_step [of s]
  consider (fin) "scanstring s \<noteq> Inl OutOfFuel"
    | (chunk) c t where "scanstring s = cons_chunk c (scanstring t)" "length t < length s"
    by auto
  then show ?case
  proof cases
    case fin
    then show ?thesis .
  next
    case chunk
    with "1.IH" have "scanstring t \<noteq> Inl OutOfFuel" by blast
    with chunk(1) show ?thesis by (auto dest: cons_chunk_fuel)
  qed
qed

lemma scan_constant_cases:
  "scan_constant s = Inl JSONDecodeError \<or> scan_constant s = Inl NotModelled"
  by (simp add: scan_constant_def)

lemma scan_number_step:
  "scan_number s = Inl JSONDecodeError \<or> scan_number s = Inl NotModelled
   \<or> (\<exists>i rest. scan_number s = Inr (JInt i, rest) \<and> length rest < length s)"
proof -
  define t where "t = (if startswith s ''-'' then tl s else s)"
  have lt: "length t \<le> length s" by (simp add: t_def)
  show ?thesis
  proof (cases t)
    case Nil
    then have "scan_number s = scan_constant s"
      by (simp add: scan_number_def Let_def t_def [symmetric])
    then show ?thesis using scan_constant_cases [of s] by auto
  next
    case (Cons d ds)
    show ?thesis
    proof (cases "is_digit d")
      case False
      with Cons have "scan_number s = scan_constant s"
        by (simp add: scan_number_def Let_def t_def [symmetric])
      then show ?thesis using scan_constant_cases [of s] by auto
    next
      case True
      define rest where "rest = (if d = CHR ''0'' then ds else dropWhile is_digit ds)"
      have "length rest \<le> length ds"
        by (simp add: rest_def length_dropWhile_le)
      then have r: "length rest < length s" using lt Cons by simp
      show ?thesis
      proof (cases "has_frac rest \<or> has_exp rest")
        case fl: True
        have "scan_number s = Inl NotModelled"
          using fl True Cons
          by (simp add: scan_number_def Let_def t_def [symmetric] rest_def [symmetric])
        then show ?thesis by simp
      next
        case fl: False
        have "\<exists>i. scan_number s = Inr (JInt i, rest)"
          using fl True Cons
          by (simp add: scan_number_def Let_def t_def [symmetric] rest_def [symmetric])
        with r show ?thesis by blast
      qed
    qed
  qed
qed

lemma scan_number_length: "scan_number s = Inr (v, rest) \<Longrightarrow> length rest < length s"
  using scan_number_step [of s] by auto

lemma scan_number_fuel: "scan_number s \<noteq> Inl OutOfFuel"
  using scan_number_step [of s] by auto

lemma startswith_drop_length:
  "startswith s p \<Longrightarrow> p \<noteq> [] \<Longrightarrow> length (drop (length p) s) < length s"
  by (cases s) (auto simp: startswith_def)

lemma parse_length_aux:
  "(\<forall>s v rest. parse_value n s = Inr (v, rest) \<longrightarrow> length rest < length s)
   \<and> (\<forall>s vs rest. parse_array n s = Inr (vs, rest) \<longrightarrow> length rest < length s)
   \<and> (\<forall>s ps rest. parse_object n s = Inr (ps, rest) \<longrightarrow> length rest < length s)"
proof (induction n)
  case 0
  then show ?case by simp
next
  case (Suc n)
  from Suc.IH have V: "\<And>s v rest. parse_value n s = Inr (v, rest) \<Longrightarrow> length rest < length s"
    and A: "\<And>s vs rest. parse_array n s = Inr (vs, rest) \<Longrightarrow> length rest < length s"
    and O: "\<And>s ps rest. parse_object n s = Inr (ps, rest) \<Longrightarrow> length rest < length s"
    by blast+
  have "length rest < length s" if p: "parse_value (Suc n) s = Inr (v, rest)" for s v rest
  proof (cases s)
    case Nil
    with p show ?thesis by simp
  next
    case (Cons c cs)
    consider (str) "c = CHR 0x22" | (obj) "c = CHR ''{''" | (arr) "c = CHR ''[''"
      | (other) "c \<noteq> CHR 0x22" "c \<noteq> CHR ''{''" "c \<noteq> CHR ''[''"
      by blast
    then show ?thesis
    proof cases
      case str
      with p Cons obtain x where "scanstring cs = Inr (x, rest)"
        by (auto split: sum.splits)
      from scanstring_length [OF this] Cons show ?thesis by simp
    next
      case obj
      with p Cons obtain d ds where sk: "skip_ws cs = d # ds"
        by (cases "skip_ws cs") auto
      from skip_ws_Cons_length [OF sk] Cons have l: "length ds < length s" by simp
      show ?thesis
      proof (cases "d = CHR ''}''")
        case True
        with p Cons obj sk l show ?thesis by simp
      next
        case False
        with p Cons obj sk obtain ps where "parse_object n ds = Inr (ps, rest)"
          by (auto split: sum.splits if_splits)
        from O [OF this] l show ?thesis by simp
      qed
    next
      case arr
      with p Cons obtain d ds where sk: "skip_ws cs = d # ds"
        by (cases "skip_ws cs") auto
      from skip_ws_Cons_length [OF sk] Cons have l: "length ds < length s" by simp
      have l': "length (d # ds) < length s"
        using length_skip_ws [of cs] sk Cons by simp
      show ?thesis
      proof (cases "d = CHR '']''")
        case True
        with p Cons arr sk l show ?thesis by simp
      next
        case False
        with p Cons arr sk obtain vs where "parse_array n (d # ds) = Inr (vs, rest)"
          by (auto split: sum.splits)
        from A [OF this] l' show ?thesis by simp
      qed
    next
      case other
      have d4: "length (drop 4 s) < length s" "length (drop 5 s) < length s"
        using Cons by simp_all
      from p Cons other have
        "rest = drop 4 s \<or> rest = drop 5 s \<or> scan_number s = Inr (v, rest)"
        by (auto split: if_splits)
      then show ?thesis using d4 scan_number_length by blast
    qed
  qed
  moreover have "length rest < length s" if p: "parse_array (Suc n) s = Inr (vs, rest)"
    for s vs rest
  proof -
    from p obtain v r where pv: "parse_value n s = Inr (v, r)"
      by (auto split: sum.splits)
    from V [OF pv] have l1: "length r < length s" .
    from p pv obtain c cs where sk: "skip_ws r = c # cs"
      by (cases "skip_ws r") auto
    from skip_ws_Cons_length [OF sk] l1 have l2: "length cs < length s" by simp
    show ?thesis
    proof (cases "c = CHR '']''")
      case True
      with p pv sk l2 show ?thesis by simp
    next
      case False
      with p pv sk obtain vs' where pa: "parse_array n (skip_ws cs) = Inr (vs', rest)"
        by (auto split: sum.splits if_splits)
      from A [OF pa] length_skip_ws [of cs] l2 show ?thesis by simp
    qed
  qed
  moreover have "length rest < length s" if p: "parse_object (Suc n) s = Inr (ps, rest)"
    for s ps rest
  proof -
    from p obtain key r where sc: "scanstring s = Inr (key, r)"
      by (auto split: sum.splits)
    from scanstring_length [OF sc] have l1: "length r < length s" .
    from p sc obtain c cs where sk: "skip_ws r = c # cs"
      by (cases "skip_ws r") auto
    from skip_ws_Cons_length [OF sk] l1 have l2: "length cs < length s" by simp
    from p sc sk obtain v r1 where pv: "parse_value n (skip_ws cs) = Inr (v, r1)"
      by (auto split: sum.splits if_splits)
    from V [OF pv] length_skip_ws [of cs] l2 have l3: "length r1 < length s" by simp
    from p sc sk pv obtain d ds where sk1: "skip_ws r1 = d # ds"
      by (cases "skip_ws r1") (auto split: if_splits)
    from skip_ws_Cons_length [OF sk1] l3 have l4: "length ds < length s" by simp
    show ?thesis
    proof (cases "d = CHR ''}''")
      case True
      with p sc sk pv sk1 l4 show ?thesis by (simp split: if_splits)
    next
      case False
      with p sc sk pv sk1 obtain q qs where sk2: "skip_ws ds = q # qs"
        by (cases "skip_ws ds") (auto split: if_splits)
      from skip_ws_Cons_length [OF sk2] l4 have l5: "length qs < length s" by simp
      from False p sc sk pv sk1 sk2 obtain ps' where "parse_object n qs = Inr (ps', rest)"
        by (auto split: sum.splits if_splits)
      from O [OF this] l5 show ?thesis by simp
    qed
  qed
  ultimately show ?case by blast
qed

lemma parse_value_length: "parse_value n s = Inr (v, rest) \<Longrightarrow> length rest < length s"
  using parse_length_aux [of n] by blast

lemma parse_fuel_aux:
  "(\<forall>s. 2 * length s < n \<longrightarrow> parse_value n s \<noteq> Inl OutOfFuel)
   \<and> (\<forall>s. 2 * length s + 1 < n \<longrightarrow> parse_array n s \<noteq> Inl OutOfFuel)
   \<and> (\<forall>s. 2 * length s + 1 < n \<longrightarrow> parse_object n s \<noteq> Inl OutOfFuel)"
proof (induction n)
  case 0
  then show ?case by simp
next
  case (Suc n)
  from Suc.IH have V: "\<And>s. 2 * length s < n \<Longrightarrow> parse_value n s \<noteq> Inl OutOfFuel"
    and A: "\<And>s. 2 * length s + 1 < n \<Longrightarrow> parse_array n s \<noteq> Inl OutOfFuel"
    and O: "\<And>s. 2 * length s + 1 < n \<Longrightarrow> parse_object n s \<noteq> Inl OutOfFuel"
    by blast+
  have "parse_value (Suc n) s \<noteq> Inl OutOfFuel" if b: "2 * length s < Suc n" for s
  proof (cases s)
    case Nil
    then show ?thesis by simp
  next
    case (Cons c cs)
    consider (str) "c = CHR 0x22" | (obj) "c = CHR ''{''" | (arr) "c = CHR ''[''"
      | (other) "c \<noteq> CHR 0x22" "c \<noteq> CHR ''{''" "c \<noteq> CHR ''[''"
      by blast
    then show ?thesis
    proof cases
      case str
      with Cons scanstring_fuel [of cs] show ?thesis
        by (auto split: sum.splits)
    next
      case obj
      show ?thesis
      proof (cases "skip_ws cs")
        case Nil
        with Cons obj show ?thesis by simp
      next
        case sk: (Cons d ds)
        from skip_ws_Cons_length [OF sk] Cons b have "2 * length ds + 1 < n" by simp
        from O [OF this] Cons obj sk show ?thesis
          by (auto split: sum.splits)
      qed
    next
      case arr
      show ?thesis
      proof (cases "skip_ws cs")
        case Nil
        with Cons arr show ?thesis by simp
      next
        case sk: (Cons d ds)
        from length_skip_ws [of cs] sk Cons b have "2 * length (d # ds) + 1 < n" by simp
        from A [OF this] Cons arr sk show ?thesis
          by (auto split: sum.splits)
      qed
    next
      case other
      with Cons scan_number_fuel [of s] show ?thesis by simp
    qed
  qed
  moreover have "parse_array (Suc n) s \<noteq> Inl OutOfFuel" if b: "2 * length s + 1 < Suc n" for s
  proof (cases "parse_value n s")
    case (Inl e)
    from b have "2 * length s < n" by simp
    from V [OF this] Inl show ?thesis by simp
  next
    case (Inr p)
    obtain v r where p: "p = (v, r)" by (cases p)
    from parse_value_length Inr p have l1: "length r < length s" by blast
    show ?thesis
    proof (cases "skip_ws r")
      case Nil
      with Inr p show ?thesis by simp
    next
      case sk: (Cons c cs)
      from skip_ws_Cons_length [OF sk] l1 length_skip_ws [of cs] b
      have "2 * length (skip_ws cs) + 1 < n" by simp
      from A [OF this] Inr p sk show ?thesis
        by (auto split: sum.splits)
    qed
  qed
  moreover have "parse_object (Suc n) s \<noteq> Inl OutOfFuel" if b: "2 * length s + 1 < Suc n" for s
  proof (cases "scanstring s")
    case (Inl e)
    with scanstring_fuel [of s] show ?thesis by simp
  next
    case (Inr p)
    obtain key r where p: "p = (key, r)" by (cases p)
    from scanstring_length Inr p have l1: "length r < length s" by blast
    show ?thesis
    proof (cases "skip_ws r")
      case Nil
      with Inr p show ?thesis by simp
    next
      case sk: (Cons c cs)
      from skip_ws_Cons_length [OF sk] l1 have l2: "length cs < length s" by simp
      with length_skip_ws [of cs] b have bv: "2 * length (skip_ws cs) < n" by simp
      show ?thesis
      proof (cases "parse_value n (skip_ws cs)")
        case pv: (Inl e)
        from V [OF bv] pv Inr p sk show ?thesis by simp
      next
        case pv: (Inr p1)
        obtain v r1 where p1: "p1 = (v, r1)" by (cases p1)
        from parse_value_length pv p1 have "length r1 < length (skip_ws cs)" by blast
        with length_skip_ws [of cs] l2 have l3: "length r1 < length s" by simp
        show ?thesis
        proof (cases "skip_ws r1")
          case Nil
          with Inr p sk pv p1 show ?thesis by simp
        next
          case sk1: (Cons d ds)
          from skip_ws_Cons_length [OF sk1] l3 have l4: "length ds < length s" by simp
          show ?thesis
          proof (cases "skip_ws ds")
            case Nil
            with Inr p sk pv p1 sk1 show ?thesis by simp
          next
            case sk2: (Cons q qs)
            from skip_ws_Cons_length [OF sk2] l4 b have "2 * length qs + 1 < n" by simp
            from O [OF this] Inr p sk pv p1 sk1 sk2 show ?thesis
              by (auto split: sum.splits)
          qed
        qed
      qed
    qed
  qed
  ultimately show ?case by blast
qed

lemma json_loads_fuel: "json_loads s \<noteq> Inl OutOfFuel"
proof -
  have "2 * length (skip_ws s) < 2 * length s + 1"
    using length_skip_ws [of s] by simp
  then have "parse_value (2 * length s + 1) (skip_ws s) \<noteq> Inl OutOfFuel"
    using parse_fuel_aux [of "2 * length s + 1"] by blast
  then show ?thesis
    by (auto simp: json_loads_def simp del: parse_value.simps split: sum.splits)
qed

section \<open>Lemmas about the content store\<close>

lemma json_dumps_not_Nil: "json_dumps v \<noteq> []"
  using dumps_Cons [of v] by auto

lemma of_json_Nil [simp]:
  "of_json_list xs = [] \<longleftrightarrow> xs = []" "of_json_items kvs = [] \<longleftrightarrow> kvs = []"
  by (cases xs; simp) (cases kvs; auto)

lemma py_dumps_of_json:
  "py_dumps (of_json v) = json_dumps v"
  "py_dumps_list (of_json_list xs) = dumps_list xs"
  "py_dumps_items (of_json_items kvs) = dumps_items kvs"
  by (induction v and xs and kvs rule: of_json_of_json_list_of_json_items.induct) simp_all

lemma get_content_of_dumps:
  "distinct_keys d \<Longrightarrow> get_content_of (Some (json_dumps d)) = Inr d"
  by (simp add: get_content_of_def json_dumps_not_Nil json_loads_dumps)











lemma get_content_of_distinct_keys: "get_content_of cj = Inr v \<Longrightarrow> distinct_keys v"
  by (auto simp: get_content_of_def split: option.splits if_splits dest: json_loads_distinct_keys)

lemma map_of_dict_set: "map_of (dict_set d k v) k' = (if k' = k then Some v else map_of d k')"
  by (induction d k v rule: dict_set.induct) auto

lemma dict_set_distinct_keys:
  "distinct_keys (JDict d) \<Longrightarrow> distinct_keys v \<Longrightarrow> distinct_keys (JDict (dict_set d k v))"
  by (simp add: dict_set_distinct dict_set_distinct_keys_items)

lemma find_page_replaced:
  assumes "find (\<lambda>q. page_slug q = slug) ps = Some p" and "page_slug p' = slug"
  shows "find (\<lambda>q. page_slug q = slug) (map (\<lambda>q. if page_id q = page_id p then p' else q) ps)
         = Some p'"
  using assms by (induction ps) (auto split: if_splits)

section \<open>The claims\<close>

text \<open>
  C1. The claim: \<^verbatim>\<open>has_permission\<close> returns the \<^verbatim>\<open>can_edit\<close> value of the first grant
  whose page pattern and section match, and false when none matches. The code returns
  \<^verbatim>\<open>True\<close> for a grant with page pattern \<^verbatim>\<open>*\<close> without reading its \<^verbatim>\<open>can_edit\<close>
  or its section: a wildcard grant that denies editing, and a wildcard grant for another
  section, both grant it.
\<close>

theorem has_permission_wildcard_ignores_can_edit:
  "has_permission
     [\<lparr>perm_page_slug = ''*'', perm_section_id = None, perm_can_edit = False\<rparr>]
     ''home'' None = True
   \<and> has_permission
     [\<lparr>perm_page_slug = ''*'', perm_section_id = Some ''footer'', perm_can_edit = False\<rparr>,
      \<lparr>perm_page_slug = ''home'', perm_section_id = Some ''main-nav'', perm_can_edit = False\<rparr>]
     ''home'' (Some ''main-nav'') = True"
  by simp

text \<open>
  C2. The claim: a write by a caller who is not authorized for the slug is refused before
  the store changes. Neither write operation calls \<^verbatim>\<open>can_edit\<close>: for a logged-in user
  whose only grant is \<^verbatim>\<open>teams/*\<close>, \<^verbatim>\<open>can_edit\<close> is false on \<^verbatim>\<open>rules/x\<close>, and still
  \<^verbatim>\<open>update_page_content\<close> rewrites that page and \<^verbatim>\<open>create_button\<close> adds a button to
  it.
\<close>

theorem write_accepted_without_permission:
  "can_edit
     \<lparr>is_authenticated = True,
        permissions = [\<lparr>perm_page_slug = ''teams/*'', perm_section_id = None, perm_can_edit = True\<rparr>]\<rparr>
     ''rules/x'' None = False
   \<and> update_page_content
     \<lparr>is_authenticated = True,
        permissions = [\<lparr>perm_page_slug = ''teams/*'', perm_section_id = None, perm_can_edit = True\<rparr>]\<rparr>
     \<lparr>pages = [\<lparr>page_id = 1, page_slug = ''rules/x'', page_title = ''X'',
                 page_parent_slug = None, page_content_json = Some ''{}'',
                 page_created_at = 0, page_updated_at = 0\<rparr>],
        content_blocks = [], buttons = []\<rparr>
     ''rules/x'' (JDict [(''content'', JStr ''<p>x</p>'')]) 9
   = (Inr (JDict [(''success'', JBool True)]),
      \<lparr>pages = [\<lparr>page_id = 1, page_slug = ''rules/x'', page_title = ''X'',
                 page_parent_slug = None,
                 page_content_json = Some (json_dumps (JDict [(''html'', JStr ''<p>x</p>'')])),
                 page_created_at = 0, page_updated_at = 9\<rparr>],
        content_blocks = [], buttons = []\<rparr>)
   \<and> length (buttons (snd (create_button
     \<lparr>is_authenticated = True,
        permissions = [\<lparr>perm_page_slug = ''teams/*'', perm_section_id = None, perm_can_edit = True\<rparr>]\<rparr>
     \<lparr>pages = [\<lparr>page_id = 1, page_slug = ''rules/x'', page_title = ''X'',
                 page_parent_slug = None, page_content_json = Some ''{}'',
                 page_created_at = 0, page_updated_at = 0\<rparr>],
        content_blocks = [], buttons = []\<rparr>
     [(''page_slug'', ''rules/x''), (''label'', ''A'')] 9))) = 1"
  by code_simp

text \<open>
  C3. The claim: the grant \<^verbatim>\<open>teams/*\<close> matches the slugs that start with \<^verbatim>\<open>teams/\<close>, so
  neither \<^verbatim>\<open>teams\<close> nor \<^verbatim>\<open>other/teams/x\<close>. The code cuts two characters off the pattern
  (\<^verbatim>\<open>perm.page_slug[:-2]\<close>), so the prefix is \<^verbatim>\<open>teams\<close> without the slash: the slugs
  \<^verbatim>\<open>teams\<close> and \<^verbatim>\<open>teamsters\<close> match too.
\<close>

theorem has_permission_prefix_without_slash:
  "has_permission
     [\<lparr>perm_page_slug = ''teams/*'', perm_section_id = None, perm_can_edit = True\<rparr>]
     ''teams'' None = True
   \<and> has_permission
     [\<lparr>perm_page_slug = ''teams/*'', perm_section_id = None, perm_can_edit = True\<rparr>]
     ''teamsters'' None = True
   \<and> has_permission
     [\<lparr>perm_page_slug = ''teams/*'', perm_section_id = None, perm_can_edit = True\<rparr>]
     ''teams/trainer'' None = True
   \<and> has_permission
     [\<lparr>perm_page_slug = ''teams/*'', perm_section_id = None, perm_can_edit = True\<rparr>]
     ''other/teams/x'' None = False"
  by (simp add: endswith_def startswith_def drop_last2_def)

text \<open>
  C4. The claim: a stored content string that fails to parse is read as the empty
  document. The code does not catch the exception of \<^verbatim>\<open>json.loads\<close>: for the stored
  strings \<^verbatim>\<open>{oops\<close> and \<^verbatim>\<open>not json\<close> the call \<^verbatim>\<open>get_content\<close> ends in
  \<^verbatim>\<open>JSONDecodeError\<close>.
\<close>

theorem get_content_malformed_counterexample:
  "Page_get_content
     \<lparr>page_id = 1, page_slug = ''home'', page_title = ''Home'', page_parent_slug = None,
        page_content_json = Some ''{oops'', page_created_at = 0, page_updated_at = 0\<rparr>
   = Inl JSONDecodeError
   \<and> ContentBlock_get_content
     \<lparr>block_id = 1, block_page_id = 1, block_type = ''text'', block_position = Some 0,
        block_content_json = Some ''not json'', block_section_id = None,
        block_created_at = 0, block_updated_at = 0\<rparr>
   = Inl JSONDecodeError"
  by code_simp


text \<open>
  C4, as the code has it: only an absent or empty stored string is read as the empty
  document; for every other stored string on which \<^verbatim>\<open>json.loads\<close> fails,
  \<^verbatim>\<open>get_content\<close> of a page and of a block ends in that error.
\<close>

theorem get_content_propagates_parse_error:
  assumes "s \<noteq> []" and "json_loads s = Inl e"
  shows "Page_get_content (p\<lparr>page_content_json := Some s\<rparr>) = Inl e
         \<and> ContentBlock_get_content (b\<lparr>block_content_json := Some s\<rparr>) = Inl e
         \<and> Page_get_content (p\<lparr>page_content_json := None\<rparr>) = Inr (JDict [])
         \<and> Page_get_content (p\<lparr>page_content_json := Some []\<rparr>) = Inr (JDict [])
         \<and> ContentBlock_get_content (b\<lparr>block_content_json := None\<rparr>) = Inr (JDict [])
         \<and> ContentBlock_get_content (b\<lparr>block_content_json := Some []\<rparr>) = Inr (JDict [])"
  using assms
  by (simp add: Page_get_content_def ContentBlock_get_content_def get_content_of_def)

theorem get_content_propagates_parse_error_witness:
  "''[1,'' \<noteq> [] \<and> json_loads ''[1,'' = Inl JSONDecodeError
   \<and> Page_get_content
        (\<lparr>page_id = 1, page_slug = ''home'', page_title = ''Home'', page_parent_slug = None,
           page_content_json = Some ''{}'', page_created_at = 0, page_updated_at = 0\<rparr>
         \<lparr>page_content_json := Some ''[1,''\<rparr>) = Inl JSONDecodeError"
proof -
  have a: "''[1,'' \<noteq> []" by simp
  have b: "json_loads ''[1,'' = Inl JSONDecodeError" by code_simp
  show ?thesis
    using a b get_content_propagates_parse_error [OF a b] by blast
qed

text \<open>
  C5. For an existing page whose stored content reads as a dictionary,
  \<^verbatim>\<open>update_page_content\<close> by a logged-in caller succeeds; the page then reads as the
  same dictionary with the key \<^verbatim>\<open>html\<close> set to the \<^verbatim>\<open>content\<close> of the request, every
  other key as before, \<^verbatim>\<open>updated_at\<close> is the current time, and the page's other fields
  are unchanged.
\<close>

theorem update_page_content_keeps_other_keys:
  assumes "is_authenticated cu"
    and "find_page st slug = Some p"
    and "Page_get_content p = Inr (JDict d)"
    and "distinct_keys (dict_get body ''content'' (JStr ''''))"
  shows "\<exists>p'. update_page_content cu st slug (JDict body) now
             = (Inr (JDict [(''success'', JBool True)]),
                st\<lparr>pages := map (\<lambda>q. if page_id q = page_id p then p' else q) (pages st)\<rparr>)
           \<and> find_page (snd (update_page_content cu st slug (JDict body) now)) slug = Some p'
           \<and> Page_get_content p'
              = Inr (JDict (dict_set d ''html'' (dict_get body ''content'' (JStr ''''))))
           \<and> map_of (dict_set d ''html'' (dict_get body ''content'' (JStr ''''))) ''html''
              = Some (dict_get body ''content'' (JStr ''''))
           \<and> (\<forall>k. k \<noteq> ''html'' \<longrightarrow>
                 map_of (dict_set d ''html'' (dict_get body ''content'' (JStr ''''))) k = map_of d k)
           \<and> page_updated_at p' = now
           \<and> p'\<lparr>page_content_json := page_content_json p, page_updated_at := page_updated_at p\<rparr> = p"
proof -
  define v where "v = dict_get body ''content'' (JStr '''')"
  define p' where
    "p' = (Page_set_content p (of_json (JDict (dict_set d ''html'' v))))\<lparr>page_updated_at := now\<rparr>"
  have dk: "distinct_keys (JDict d)"
    using assms(3) by (auto simp: Page_get_content_def dest: get_content_of_distinct_keys)
  have dk': "distinct_keys (JDict (dict_set d ''html'' v))"
    using dk assms(4) unfolding v_def by (rule dict_set_distinct_keys)
  have upd: "update_page_content cu st slug (JDict body) now
             = (Inr (JDict [(''success'', JBool True)]),
                st\<lparr>pages := map (\<lambda>q. if page_id q = page_id p then p' else q) (pages st)\<rparr>)"
    using assms(1,2,3)
    by (simp add: update_page_content_def Let_def p'_def v_def)
  have slug: "page_slug p = slug"
    using assms(2) by (auto simp: find_page_def find_Some_iff)
  then have slug': "page_slug p' = slug"
    by (simp add: p'_def Page_set_content_def)
  have found: "find_page (snd (update_page_content cu st slug (JDict body) now)) slug = Some p'"
    using find_page_replaced [OF _ slug', of "pages st" p] assms(2)
    by (simp add: upd find_page_def)
  have gc: "Page_get_content p' = Inr (JDict (dict_set d ''html'' v))"
    using get_content_of_dumps [OF dk']
    by (simp add: p'_def Page_get_content_def Page_set_content_def py_dumps_of_json
        del: of_json.simps)
  have same: "p'\<lparr>page_content_json := page_content_json p, page_updated_at := page_updated_at p\<rparr> = p"
    by (simp add: p'_def Page_set_content_def)
  have ts: "page_updated_at p' = now"
    by (simp add: p'_def Page_set_content_def)
  show ?thesis
    using upd found gc same ts unfolding v_def [symmetric]
    by (intro exI [of _ p']) (simp add: map_of_dict_set)
qed

theorem update_page_content_keeps_other_keys_witness:
  "is_authenticated \<lparr>is_authenticated = True, permissions = []\<rparr>
   \<and> find_page
        \<lparr>pages = [\<lparr>page_id = 1, page_slug = ''home'', page_title = ''Home'',
                    page_parent_slug = None,
                    page_content_json = Some ''{\"a\": [1, 2], \"html\": \"old\", \"b\": null}'',
                    page_created_at = 0, page_updated_at = 0\<rparr>],
           content_blocks = [], buttons = []\<rparr> ''home''
       = Some \<lparr>page_id = 1, page_slug = ''home'', page_title = ''Home'',
                    page_parent_slug = None,
                    page_content_json = Some ''{\"a\": [1, 2], \"html\": \"old\", \"b\": null}'',
                    page_created_at = 0, page_updated_at = 0\<rparr>
   \<and> Page_get_content \<lparr>page_id = 1, page_slug = ''home'', page_title = ''Home'',
                    page_parent_slug = None,
                    page_content_json = Some ''{\"a\": [1, 2], \"html\": \"old\", \"b\": null}'',
                    page_created_at = 0, page_updated_at = 0\<rparr>
       = Inr (JDict [(''a'', JList [JInt 1, JInt 2]), (''html'', JStr ''old''), (''b'', JNull)])
   \<and> distinct_keys (dict_get [(''content'', JStr ''<p>new</p>'')] ''content'' (JStr ''''))
   \<and> (\<exists>p'. find_page (snd (update_page_content \<lparr>is_authenticated = True, permissions = []\<rparr>
          \<lparr>pages = [\<lparr>page_id = 1, page_slug = ''home'', page_title = ''Home'',
                    page_parent_slug = None,
                    page_content_json = Some ''{\"a\": [1, 2], \"html\": \"old\", \"b\": null}'',
                    page_created_at = 0, page_updated_at = 0\<rparr>],
             content_blocks = [], buttons = []\<rparr> ''home''
          (JDict [(''content'', JStr ''<p>new</p>'')]) 7)) ''home'' = Some p'
        \<and> Page_get_content p'
            = Inr (JDict [(''a'', JList [JInt 1, JInt 2]), (''html'', JStr ''<p>new</p>''),
                          (''b'', JNull)])
        \<and> page_updated_at p' = 7)"
proof -
  have a: "is_authenticated \<lparr>is_authenticated = True, permissions = []\<rparr>" by simp
  have b: "find_page
        \<lparr>pages = [\<lparr>page_id = 1, page_slug = ''home'', page_title = ''Home'',
                    page_parent_slug = None,
                    page_content_json = Some ''{\"a\": [1, 2], \"html\": \"old\", \"b\": null}'',
                    page_created_at = 0, page_updated_at = 0\<rparr>],
           content_blocks = [], buttons = []\<rparr> ''home''
       = Some \<lparr>page_id = 1, page_slug = ''home'', page_title = ''Home'',
                    page_parent_slug = None,
                    page_content_json = Some ''{\"a\": [1, 2], \"html\": \"old\", \"b\": null}'',
                    page_created_at = 0, page_updated_at = 0\<rparr>"
    by (simp add: find_page_def)
  have c: "Page_get_content \<lparr>page_id = 1, page_slug = ''home'', page_title = ''Home'',
                    page_parent_slug = None,
                    page_content_json = Some ''{\"a\": [1, 2], \"html\": \"old\", \"b\": null}'',
                    page_created_at = 0, page_updated_at = 0\<rparr>
       = Inr (JDict [(''a'', JList [JInt 1, JInt 2]), (''html'', JStr ''old''), (''b'', JNull)])"
    by code_simp
  have d: "distinct_keys (dict_get [(''content'', JStr ''<p>new</p>'')] ''content'' (JStr ''''))"
    by (simp add: dict_get_def)
  show ?thesis
    using a b c d update_page_content_keeps_other_keys [OF a b c d, of 7]
    by (auto simp: dict_get_def)
qed

text \<open>
  C6. For an unauthenticated caller, whatever grants are stored, \<^verbatim>\<open>can_edit\<close> is false
  and both write operations answer \<open>Unauthorized\<close> and leave the database as it was.
\<close>

theorem unauthenticated_rejected:
  assumes "\<not> is_authenticated cu"
  shows "can_edit cu pslug sec = False
         \<and> update_page_content cu st slug data now = (Inl Unauthorized, st)
         \<and> create_button cu st form now = (Inl Unauthorized, st)"
  using assms by (simp add: can_edit_def update_page_content_def create_button_def)

theorem unauthenticated_rejected_witness:
  "\<not> is_authenticated
       \<lparr>is_authenticated = False,
          permissions = [\<lparr>perm_page_slug = ''*'', perm_section_id = None, perm_can_edit = True\<rparr>]\<rparr>
   \<and> can_edit
        \<lparr>is_authenticated = False,
           permissions = [\<lparr>perm_page_slug = ''*'', perm_section_id = None, perm_can_edit = True\<rparr>]\<rparr>
        ''rules/general-rules'' None = False
   \<and> update_page_content
        \<lparr>is_authenticated = False,
           permissions = [\<lparr>perm_page_slug = ''*'', perm_section_id = None, perm_can_edit = True\<rparr>]\<rparr>
        \<lparr>pages = [], content_blocks = [], buttons = []\<rparr>
        ''rules/general-rules'' (JDict [(''content'', JStr ''<p>x</p>'')]) 5
       = (Inl Unauthorized, \<lparr>pages = [], content_blocks = [], buttons = []\<rparr>)"
proof -
  have a: "\<not> is_authenticated
       \<lparr>is_authenticated = False,
          permissions = [\<lparr>perm_page_slug = ''*'', perm_section_id = None, perm_can_edit = True\<rparr>]\<rparr>"
    by simp
  show ?thesis
    using a unauthenticated_rejected [OF a] by blast
qed







text \<open>
  C10. The claim: for every document that \<^verbatim>\<open>json.dumps\<close> accepts, \<^verbatim>\<open>set_content\<close> followed
  by \<^verbatim>\<open>get_content\<close> returns an equal document. A dictionary key that is not a string
  does not come back: the document with the integer key 1 is stored with the key written
  as a string, and is read as the document with the string key \<^verbatim>\<open>1\<close>, which is another
  document.
\<close>

theorem set_content_int_key_counterexample:
  "Page_get_content
     (Page_set_content
        \<lparr>page_id = 1, page_slug = ''home'', page_title = ''Home'', page_parent_slug = None,
           page_content_json = None, page_created_at = 0, page_updated_at = 0\<rparr>
        (PDict [(KInt 1, PStr ''a'')]))
   = Inr (JDict [(''1'', JStr ''a'')])
   \<and> of_json (JDict [(''1'', JStr ''a'')]) \<noteq> PDict [(KInt 1, PStr ''a'')]"
  by code_simp

text \<open>
  C10, as the code has it: for every document whose dictionaries have string keys only,
  each once, built from \<^verbatim>\<open>None\<close>, booleans, integers, strings, lists and such
  dictionaries, \<^verbatim>\<open>set_content\<close> followed by \<^verbatim>\<open>get_content\<close> returns the document, for a
  page and for a content block.
\<close>

theorem set_content_then_get_content:
  assumes "distinct_keys d"
  shows "Page_get_content (Page_set_content p (of_json d)) = Inr d
         \<and> ContentBlock_get_content (ContentBlock_set_content b (of_json d)) = Inr d"
  using assms
  by (simp add: Page_get_content_def Page_set_content_def ContentBlock_get_content_def
      ContentBlock_set_content_def get_content_of_dumps py_dumps_of_json)

theorem set_content_then_get_content_witness:
  "distinct_keys
     (JDict [(''html'', JStr ''<p>x</p>''), (''n'', JInt (- 12)),
             (''tags'', JList [JBool True, JNull, JDict [(''k'', JStr [CHR 0x22, CHR 0xE9])]])])
   \<and> Page_get_content
        (Page_set_content
           \<lparr>page_id = 1, page_slug = ''home'', page_title = ''Home'', page_parent_slug = None,
              page_content_json = None, page_created_at = 0, page_updated_at = 0\<rparr>
           (of_json
              (JDict [(''html'', JStr ''<p>x</p>''), (''n'', JInt (- 12)),
                      (''tags'', JList [JBool True, JNull,
                                        JDict [(''k'', JStr [CHR 0x22, CHR 0xE9])]])])))
       = Inr (JDict [(''html'', JStr ''<p>x</p>''), (''n'', JInt (- 12)),
                     (''tags'', JList [JBool True, JNull, JDict [(''k'', JStr [CHR 0x22, CHR 0xE9])]])])"
proof -
  have d: "distinct_keys
     (JDict [(''html'', JStr ''<p>x</p>''), (''n'', JInt (- 12)),
             (''tags'', JList [JBool True, JNull, JDict [(''k'', JStr [CHR 0x22, CHR 0xE9])]])])"
    by simp
  show ?thesis
    using d set_content_then_get_content [OF d] by blast
qed

end
